theory Spec2Isabelle
  imports Main "HOL-Library.Log_Nat" "HOL-Library.Monad_Syntax"
begin

section \<open>Python floats: IEEE-754 binary64\<close>

text \<open>
  A Python \<open>float\<close> is a binary64 value. A finite value is kept as the rational number it
  denotes (\<open>Fin 0\<close> is \<open>+0.0\<close>), with \<open>-0.0\<close>, the two infinities and NaN as values of
  their own. Every arithmetic operation computes the exact rational result and rounds it
  to the nearest binary64 value, ties to even, as the hardware does.
\<close>

datatype pyfloat = Fin rat | NegZero | PInf | NInf | NaN

text \<open>Rounding a rational to the nearest integer, ties to the even one.\<close>

definition rhe :: "rat \<Rightarrow> int" where
  "rhe x = (let f = \<lfloor>x\<rfloor>; r = x - of_int f
            in if r < 1/2 then f else if 1/2 < r then f + 1
               else if even f then f else f + 1)"

text \<open>The powers of two, with any integer as the exponent.\<close>

definition pow2 :: "int \<Rightarrow> rat" where
  "pow2 k = power_int 2 k"

text \<open>The binary exponent \<open>e\<close> of a positive rational \<open>x\<close>: \<open>pow2 e \<le> x < pow2 (e + 1)\<close>.\<close>

definition ilog2 :: "rat \<Rightarrow> int" where
  "ilog2 x = (case quotient_of x of (n, d) \<Rightarrow>
      let e0 = bitlen n - bitlen d in if pow2 e0 \<le> x then e0 else e0 - 1)"

text \<open>
  Binary64 has 53 significant bits and the least exponent \<open>-1022\<close>, below which the
  spacing stays \<open>2 ^ -1074\<close> (subnormals): the unit in the last place of a positive
  rational, and the rational in these units, rounded.
\<close>

definition ulp :: "rat \<Rightarrow> rat" where
  "ulp a = pow2 (max (ilog2 a) (- 1022) - 52)"

definition significand :: "rat \<Rightarrow> int" where
  "significand a = rhe (a / ulp a)"

text \<open>
  Rounding to binary64: overflow to infinity from \<open>2 ^ 1024\<close> on, and a result that
  rounds to zero keeps the sign of the exact value.
\<close>

definition round64 :: "rat \<Rightarrow> pyfloat" where
  "round64 x =
     (if x = 0 then Fin 0
      else let a = \<bar>x\<bar>; e = ilog2 a
           in if 1024 \<le> e then (if x < 0 then NInf else PInf)
              else let m = significand a
                   in if e = 1023 \<and> m = 2 ^ 53 then (if x < 0 then NInf else PInf)
                      else if m = 0 then (if x < 0 then NegZero else Fin 0)
                      else Fin (if x < 0 then - (of_int m * ulp a) else of_int m * ulp a))"

fun is_nan :: "pyfloat \<Rightarrow> bool" where
  "is_nan NaN = True"
| "is_nan _ = False"

fun is_inf :: "pyfloat \<Rightarrow> bool" where
  "is_inf PInf = True"
| "is_inf NInf = True"
| "is_inf _ = False"

fun is_finite :: "pyfloat \<Rightarrow> bool" where
  "is_finite (Fin q) = True"
| "is_finite NegZero = True"
| "is_finite _ = False"

text \<open>The sign bit (\<open>True\<close>: negative) and the value of a finite float.\<close>

fun fsign :: "pyfloat \<Rightarrow> bool" where
  "fsign (Fin q) = (q < 0)"
| "fsign NegZero = True"
| "fsign NInf = True"
| "fsign _ = False"

fun fval :: "pyfloat \<Rightarrow> rat" where
  "fval (Fin q) = q"
| "fval _ = 0"

definition is_zero :: "pyfloat \<Rightarrow> bool" where
  "is_zero x = (is_finite x \<and> fval x = 0)"

definition signed_zero :: "bool \<Rightarrow> pyfloat" where
  "signed_zero s = (if s then NegZero else Fin 0)"

definition signed_inf :: "bool \<Rightarrow> pyfloat" where
  "signed_inf s = (if s then NInf else PInf)"

text \<open>\<open>x * y\<close> on floats.\<close>

definition fmul :: "pyfloat \<Rightarrow> pyfloat \<Rightarrow> pyfloat" where
  "fmul x y =
     (if is_nan x \<or> is_nan y then NaN
      else if is_inf x \<or> is_inf y then
        (if is_zero x \<or> is_zero y then NaN else signed_inf (fsign x \<noteq> fsign y))
      else if fval x * fval y = 0 then signed_zero (fsign x \<noteq> fsign y)
      else round64 (fval x * fval y))"

text \<open>\<open>x + y\<close> on floats.\<close>

definition fadd :: "pyfloat \<Rightarrow> pyfloat \<Rightarrow> pyfloat" where
  "fadd x y =
     (if is_nan x \<or> is_nan y then NaN
      else if is_inf x then (if is_inf y \<and> y \<noteq> x then NaN else x)
      else if is_inf y then y
      else if fval x + fval y = 0 then signed_zero (fsign x \<and> fsign y)
      else round64 (fval x + fval y))"

fun fneg :: "pyfloat \<Rightarrow> pyfloat" where
  "fneg (Fin q) = (if q = 0 then NegZero else Fin (- q))"
| "fneg NegZero = Fin 0"
| "fneg PInf = NInf"
| "fneg NInf = PInf"
| "fneg NaN = NaN"

text \<open>\<open>x - y\<close> on floats.\<close>

definition fsub :: "pyfloat \<Rightarrow> pyfloat \<Rightarrow> pyfloat" where
  "fsub x y = fadd x (fneg y)"

text \<open>
  \<open>x / y\<close> on floats: the IEEE-754 quotient for a divisor that is not zero, under
  Python's check of the divisor, which raises \<open>ZeroDivisionError\<close> for a zero of either
  sign (the result is \<open>None\<close> there).
\<close>

definition fdiv :: "pyfloat \<Rightarrow> pyfloat \<Rightarrow> pyfloat" where
  "fdiv x y =
     (if is_nan x \<or> is_nan y then NaN
      else if is_inf x then (if is_inf y then NaN else signed_inf (fsign x \<noteq> fsign y))
      else if is_inf y \<or> fval x = 0 then signed_zero (fsign x \<noteq> fsign y)
      else round64 (fval x / fval y))"

definition truediv :: "pyfloat \<Rightarrow> pyfloat \<Rightarrow> pyfloat option" where
  "truediv x y = (if is_zero y then None else Some (fdiv x y))"

text \<open>
  The conversion of a Python \<open>int\<close> operand in mixed arithmetic. Python raises
  \<open>OverflowError\<close> for an integer beyond the float range: \<open>None\<close>.
\<close>

definition float_of_int :: "int \<Rightarrow> pyfloat option" where
  "float_of_int i = (let r = round64 (of_int i) in if is_inf r then None else Some r)"

text \<open>The comparisons \<open>==\<close>, \<open><\<close> and \<open><=\<close>: false whenever an operand is NaN.\<close>

fun frank :: "pyfloat \<Rightarrow> int" where
  "frank NInf = - 1"
| "frank PInf = 1"
| "frank _ = 0"

definition feq :: "pyfloat \<Rightarrow> pyfloat \<Rightarrow> bool" where
  "feq x y = (\<not> is_nan x \<and> \<not> is_nan y \<and> frank x = frank y \<and> fval x = fval y)"

definition flt :: "pyfloat \<Rightarrow> pyfloat \<Rightarrow> bool" where
  "flt x y = (\<not> is_nan x \<and> \<not> is_nan y \<and>
              (frank x < frank y \<or> (frank x = frank y \<and> fval x < fval y)))"

definition fle :: "pyfloat \<Rightarrow> pyfloat \<Rightarrow> bool" where
  "fle x y = (\<not> is_nan x \<and> \<not> is_nan y \<and>
              (frank x < frank y \<or> (frank x = frank y \<and> fval x \<le> fval y)))"

text \<open>
  The values a Python float can hold: of the rationals, those that rounding leaves
  unchanged.
\<close>

definition is_double :: "pyfloat \<Rightarrow> bool" where
  "is_double x = (case x of Fin q \<Rightarrow> round64 q = Fin q | _ \<Rightarrow> True)"

section \<open>The sampling loop of \<open>main\<close>\<close>

text \<open>\<open>INTERVAL = 1\<close>, a Python \<open>int\<close>.\<close>

definition INTERVAL :: int where
  "INTERVAL = 1"

text \<open>The local variables of \<open>main\<close> that live across cycles.\<close>

record mstate =
  cumulative_energy_Wh :: pyfloat
  cumulative_capacity_mAh :: pyfloat
  last_valid_voltage :: "pyfloat option"
  last_valid_current :: "pyfloat option"

definition init_state :: mstate where
  "init_state = \<lparr>cumulative_energy_Wh = Fin 0, cumulative_capacity_mAh = Fin 0,
                  last_valid_voltage = None, last_valid_current = None\<rparr>"

text \<open>The warnings a cycle prints, in the order of the source.\<close>

datatype message =
    VoltageUsingLast      \<comment> \<open>No new valid voltage reading; using last valid value.\<close>
  | VoltageUnavailable    \<comment> \<open>No voltage reading available.\<close>
  | CurrentUsingLast      \<comment> \<open>No new valid current reading; using last valid value.\<close>
  | CurrentUnavailable    \<comment> \<open>No current reading available.\<close>

text \<open>The row a cycle prints and hands to \<open>log_data\<close> (the timestamp apart).\<close>

record sample =
  voltage :: pyfloat
  current :: pyfloat
  power :: pyfloat
  energy :: pyfloat
  capacity :: pyfloat

text \<open>
  The \<open>if reading is not None ... else ...\<close> block that follows each call of
  \<open>get_valid_reading\<close>: the value the cycle goes on with, the new \<open>last_valid\<close> value, and
  the warning printed.
\<close>

definition use_last_valid ::
  "pyfloat option \<Rightarrow> pyfloat option \<Rightarrow> message \<Rightarrow> message
     \<Rightarrow> pyfloat \<times> pyfloat option \<times> message list" where
  "use_last_valid reading last_valid using_last unavailable =
     (case reading of
        Some r \<Rightarrow> (r, Some r, [])
      | None \<Rightarrow>
          (case last_valid of
             Some l \<Rightarrow> (l, Some l, [using_last])
           | None \<Rightarrow> (NaN, None, [unavailable])))"

text \<open>
  One pass through the body of \<open>while True\<close>, from the two results of \<open>get_valid_reading\<close>
  on. After the fallback blocks both readings are floats, so the guard
  \<open>voltage_reading is not None and current_reading is not None\<close> of the power
  computation holds and the power is the product. \<open>None\<close> is an uncaught arithmetic
  exception.
\<close>

definition cycle ::
  "pyfloat option \<Rightarrow> pyfloat option \<Rightarrow> mstate \<Rightarrow> (message list \<times> sample \<times> mstate) option" where
  "cycle voltage_reading current_reading st =
     (case use_last_valid voltage_reading (last_valid_voltage st)
             VoltageUsingLast VoltageUnavailable of (v, lv, wv) \<Rightarrow>
      case use_last_valid current_reading (last_valid_current st)
             CurrentUsingLast CurrentUnavailable of (c, lc, wc) \<Rightarrow>
      do {
        let pw = fmul v c;
        interval \<leftarrow> float_of_int INTERVAL;
        energy_increment \<leftarrow>
          (if feq pw pw then truediv (fmul pw interval) (Fin 3600) else Some (Fin 0));
        let e = fadd (cumulative_energy_Wh st) energy_increment;
        thousand \<leftarrow> float_of_int 1000;
        capacity_increment \<leftarrow>
          (if feq c c then truediv (fmul (fmul c thousand) interval) (Fin 3600)
           else Some (Fin 0));
        let q = fadd (cumulative_capacity_mAh st) capacity_increment;
        Some (wv @ wc,
              \<lparr>voltage = v, current = c, power = pw, energy = e, capacity = q\<rparr>,
              \<lparr>cumulative_energy_Wh = e, cumulative_capacity_mAh = q,
               last_valid_voltage = lv, last_valid_current = lc\<rparr>)
      })"

text \<open>
  The loop over a finite run of cycles, given what \<open>get_valid_reading\<close> returned for the
  voltage and for the current in each: the rows and warnings of every cycle, and the
  final state.
\<close>

fun run_cycles ::
  "(pyfloat option \<times> pyfloat option) list \<Rightarrow> mstate
     \<Rightarrow> ((message list \<times> sample) list \<times> mstate) option" where
  "run_cycles [] st = Some ([], st)"
| "run_cycles ((vr, cr) # rs) st =
     (case cycle vr cr st of
        None \<Rightarrow> None
      | Some (ws, smp, st') \<Rightarrow>
          (case run_cycles rs st' of
             None \<Rightarrow> None
           | Some (outs, st'') \<Rightarrow> Some ((ws, smp) # outs, st'')))"

text \<open>
  The successive values of a running total, from a start on: none is less than the one
  before (in the order of \<open><=\<close> on floats, so none is NaN).
\<close>

fun nondecreasing :: "pyfloat \<Rightarrow> pyfloat list \<Rightarrow> bool" where
  "nondecreasing a [] = True"
| "nondecreasing a (x # xs) = (fle a x \<and> nondecreasing x xs)"

section \<open>Reading a line as a float: \<open>float(line.decode().strip())\<close>\<close>

text \<open>
  A line is the \<open>bytes\<close> object that \<open>readline\<close> returns: a \<open>string\<close>, one \<open>char\<close> for
  each byte. A decoded \<open>str\<close> is the list of its code points.
\<close>

text \<open>
  \<open>bytes.decode()\<close>: strict UTF-8. A byte sequence that is not well-formed (a stray or
  missing continuation byte, an overlong form, a surrogate, a value above \<open>0x10FFFF\<close>)
  raises \<open>UnicodeDecodeError\<close>, a subclass of \<open>ValueError\<close>: the result is \<open>None\<close> there.
\<close>

definition cont :: "int \<Rightarrow> bool" where
  "cont b = (128 \<le> b \<and> b < 192)"

fun utf8 :: "int list \<Rightarrow> int list option" where
  "utf8 [] = Some []"
| "utf8 (b0 # bs) =
     (if b0 < 128 then map_option (Cons b0) (utf8 bs)
      else if 194 \<le> b0 \<and> b0 < 224 then
        (case bs of
           b1 # r \<Rightarrow>
             if cont b1
             then map_option (Cons ((b0 - 192) * 64 + (b1 - 128))) (utf8 r)
             else None
         | _ \<Rightarrow> None)
      else if 224 \<le> b0 \<and> b0 < 240 then
        (case bs of
           b1 # b2 # r \<Rightarrow>
             if cont b1 \<and> cont b2 \<and> (b0 = 224 \<longrightarrow> 160 \<le> b1) \<and> (b0 = 237 \<longrightarrow> b1 < 160)
             then map_option
                    (Cons (((b0 - 224) * 64 + (b1 - 128)) * 64 + (b2 - 128))) (utf8 r)
             else None
         | _ \<Rightarrow> None)
      else if 240 \<le> b0 \<and> b0 < 245 then
        (case bs of
           b1 # b2 # b3 # r \<Rightarrow>
             if cont b1 \<and> cont b2 \<and> cont b3 \<and>
                (b0 = 240 \<longrightarrow> 144 \<le> b1) \<and> (b0 = 244 \<longrightarrow> b1 < 144)
             then map_option
                    (Cons ((((b0 - 240) * 64 + (b1 - 128)) * 64 + (b2 - 128)) * 64
                           + (b3 - 128))) (utf8 r)
             else None
         | _ \<Rightarrow> None)
      else None)"

definition decode :: "string \<Rightarrow> int list option" where
  "decode line = utf8 (map of_char line)"

text \<open>
  \<open>str.strip()\<close> removes the leading and trailing whitespace, which for a \<open>str\<close> is
  the code points that \<open>str.isspace\<close> accepts.
\<close>

definition py_isspace :: "int \<Rightarrow> bool" where
  "py_isspace c =
     ((9 \<le> c \<and> c \<le> 13) \<or> (28 \<le> c \<and> c \<le> 32) \<or> c = 133 \<or> c = 160 \<or> c = 5760 \<or>
      (8192 \<le> c \<and> c \<le> 8202) \<or> c = 8232 \<or> c = 8233 \<or> c = 8239 \<or> c = 8287 \<or>
      c = 12288)"

definition strip :: "int list \<Rightarrow> int list" where
  "strip s = rev (dropWhile py_isspace (rev (dropWhile py_isspace s)))"

text \<open>
  \<open>float(s)\<close> on a \<open>str\<close>. A code point beyond ASCII that is a decimal digit of some
  script counts as that digit and one that is whitespace as a blank; any other makes the
  string invalid (it is replaced by a question mark, where the string is cut). Which
  code points are decimal digits is a table of the interpreter's Unicode database, not
  of this program: the function takes the code points \<open>zeros\<close> of the digit zero of every
  script beyond ASCII (the digits of a script are ten successive code points).
\<close>

definition todecimal :: "int list \<Rightarrow> int \<Rightarrow> int option" where
  "todecimal zeros c =
     (case filter (\<lambda>z. z \<le> c \<and> c < z + 10) zeros of [] \<Rightarrow> None | z # _ \<Rightarrow> Some (c - z))"

fun to_ascii :: "int list \<Rightarrow> int list \<Rightarrow> string" where
  "to_ascii zeros [] = []"
| "to_ascii zeros (c # cs) =
     (if c < 128 then char_of c # to_ascii zeros cs
      else if py_isspace c then CHR '' '' # to_ascii zeros cs
      else (case todecimal zeros c of
              None \<Rightarrow> ''?''
            | Some d \<Rightarrow> char_of (48 + d) # to_ascii zeros cs))"

text \<open>The table of Unicode 14.0.0, which CPython 3.11 has.\<close>

definition unicode_14_zeros :: "int list" where
  "unicode_14_zeros =
    [1632, 1776, 1984, 2406, 2534, 2662, 2790, 2918, 3046, 3174,
     3302, 3430, 3558, 3664, 3792, 3872, 4160, 4240, 6112, 6160,
     6470, 6608, 6784, 6800, 6992, 7088, 7232, 7248, 42528, 43216,
     43264, 43472, 43504, 43600, 44016, 65296, 66720, 68912, 69734, 69872,
     69942, 70096, 70384, 70736, 70864, 71248, 71360, 71472, 71904, 72016,
     72784, 73040, 73120, 92768, 92864, 93008, 120782, 120792, 120802, 120812,
     120822, 123200, 123632, 125264, 130032]"

definition is_digit :: "char \<Rightarrow> bool" where
  "is_digit c = (48 \<le> (of_char c :: int) \<and> (of_char c :: int) \<le> 57)"

text \<open>
  An underscore is allowed between two digits only; the underscores are then left out.
  The first argument is the character before (none at the start: \<open>NUL\<close>).
\<close>

fun underscores_ok :: "char \<Rightarrow> string \<Rightarrow> bool" where
  "underscores_ok prev [] = (prev \<noteq> CHR ''_'')"
| "underscores_ok prev (p # ps) =
     ((if p = CHR ''_'' then is_digit prev else (prev = CHR ''_'' \<longrightarrow> is_digit p)) \<and>
      underscores_ok p ps)"

text \<open>The number that a string of decimal digits denotes.\<close>

definition digits_val :: "string \<Rightarrow> int" where
  "digits_val ds = foldl (\<lambda>n c. 10 * n + (of_char c - 48)) 0 ds"

text \<open>An optional sign: whether it is a minus, and the rest.\<close>

fun sign :: "string \<Rightarrow> bool \<times> string" where
  "sign [] = (False, [])"
| "sign (c # cs) =
     (if c = CHR ''-'' then (True, cs) else if c = CHR ''+'' then (False, cs)
      else (False, c # cs))"

text \<open>
  The exponent part, which is empty or an \<open>e\<close> or \<open>E\<close>, an optional sign and at least one
  digit.
\<close>

definition exponent :: "string \<Rightarrow> int option" where
  "exponent s =
     (case s of
        [] \<Rightarrow> Some 0
      | c # t \<Rightarrow>
          if c = CHR ''e'' \<or> c = CHR ''E'' then
            (case sign t of (neg, ds) \<Rightarrow>
               if ds \<noteq> [] \<and> list_all is_digit ds
               then Some (if neg then - digits_val ds else digits_val ds)
               else None)
          else None)"

text \<open>
  A decimal numeral: an optional sign, digits with at most one point among them and at
  least one digit, and the exponent part. Its value is rounded to the nearest float; a
  value that is zero takes the sign written.
\<close>

definition parse_decimal :: "string \<Rightarrow> pyfloat option" where
  "parse_decimal s =
     (case sign s of (neg, s1) \<Rightarrow>
        let ip = takeWhile is_digit s1;
            r1 = dropWhile is_digit s1;
            (fp, r2) = (case r1 of
                          c # t \<Rightarrow> if c = CHR ''.''
                                   then (takeWhile is_digit t, dropWhile is_digit t)
                                   else ([], r1)
                        | [] \<Rightarrow> ([], r1))
        in if ip = [] \<and> fp = [] then None
           else (case exponent r2 of
                   None \<Rightarrow> None
                 | Some e \<Rightarrow>
                     let m = of_int (digits_val (ip @ fp)) * power_int 10 (e - int (length fp))
                     in Some (if m = 0 then signed_zero neg
                              else round64 (if neg then - m else m))))"

text \<open>\<open>inf\<close>, \<open>infinity\<close> and \<open>nan\<close>, in any case of the letters, after an optional sign.\<close>

definition lower :: "char \<Rightarrow> char" where
  "lower c = (if 65 \<le> (of_char c :: int) \<and> (of_char c :: int) \<le> 90
              then char_of (of_char c + 32 :: int) else c)"

definition parse_inf_nan :: "string \<Rightarrow> pyfloat option" where
  "parse_inf_nan s =
     (case sign s of (neg, s1) \<Rightarrow>
        let w = map lower s1
        in if w = ''inf'' \<or> w = ''infinity'' then Some (signed_inf neg)
           else if w = ''nan'' then Some NaN
           else None)"

text \<open>\<open>float(s)\<close>; \<open>None\<close> is \<open>ValueError\<close>.\<close>

definition py_float :: "int list \<Rightarrow> int list \<Rightarrow> pyfloat option" where
  "py_float zeros s =
     (let a = to_ascii zeros s
      in if \<not> underscores_ok (CHR 0x00) a then None
         else let b = filter (\<lambda>c. c \<noteq> CHR ''_'') a
              in (case parse_decimal b of
                    Some x \<Rightarrow> Some x
                  | None \<Rightarrow> parse_inf_nan b))"

text \<open>
  \<open>float(line.decode().strip())\<close> under \<open>except ValueError\<close>: the float, or \<open>None\<close> when
  the decoding or the conversion raises.
\<close>

definition parse_line :: "int list \<Rightarrow> string \<Rightarrow> pyfloat option" where
  "parse_line zeros line =
     (case decode line of None \<Rightarrow> None | Some s \<Rightarrow> py_float zeros (strip s))"

section \<open>\<open>get_valid_reading\<close>\<close>

text \<open>
  The function sees its surroundings through \<open>time.time()\<close> and \<open>ser.readline()\<close>. The
  model is given the values that the successive calls of each return: \<open>ticks\<close> for the
  clock and \<open>lines\<close> for the port (an empty line when the port's own timeout ran out
  with nothing received). It returns the result with the values left over; \<open>None\<close>
  means that the values given ran out while the loop was still going. The
  \<open>time.sleep(0.05)\<close> after an empty line only lets time pass, which shows in the next
  value of the clock; \<open>readline\<close> is taken to return (an exception of the port would
  leave the function as it is, for \<open>main\<close> to handle).
\<close>

fun polling ::
  "int list \<Rightarrow> pyfloat \<Rightarrow> pyfloat \<Rightarrow> pyfloat list \<Rightarrow> string list
     \<Rightarrow> (pyfloat option \<times> pyfloat list \<times> string list) option" where
  "polling zeros start_time timeout [] lines = None"
| "polling zeros start_time timeout (t # ticks) lines =
     (if flt (fsub t start_time) timeout then
        (case lines of
           [] \<Rightarrow> None
         | line # lines' \<Rightarrow>
             if line \<noteq> [] then
               (case parse_line zeros line of
                  Some x \<Rightarrow> Some (Some x, ticks, lines')
                | None \<Rightarrow> polling zeros start_time timeout ticks lines')
             else polling zeros start_time timeout ticks lines')
      else Some (None, ticks, lines))"

definition get_valid_reading ::
  "int list \<Rightarrow> pyfloat \<Rightarrow> pyfloat list \<Rightarrow> string list
     \<Rightarrow> (pyfloat option \<times> pyfloat list \<times> string list) option" where
  "get_valid_reading zeros timeout ticks lines =
     (case ticks of
        [] \<Rightarrow> None
      | start_time # ticks' \<Rightarrow> polling zeros start_time timeout ticks' lines)"

text \<open>The default \<open>timeout=0.8\<close>: the float nearest to \<open>0.8\<close>.\<close>

definition default_timeout :: pyfloat where
  "default_timeout = Fin (3602879701896397 / 4503599627370496)"

section \<open>The \<open>finally\<close> block of \<open>main\<close>\<close>

datatype channel = Voltage_port | Current_port

text \<open>
  What \<open>main\<close> knows of a port when it reaches \<open>finally\<close>: the variable is not bound
  (the port was never opened), or it is bound to a port that is open or not.
\<close>

datatype port = Unbound | Bound bool

text \<open>
  The steps of the block: writing \<open>:DISP:ENAB 1\<close> to a port, closing it, and the last
  message.
\<close>

datatype step = Write_display channel | Close channel | Print_closed

fun port_steps :: "channel \<Rightarrow> port \<Rightarrow> step list" where
  "port_steps ch (Bound True) = [Write_display ch, Close ch]"
| "port_steps ch _ = []"

text \<open>
  Running steps in sequence where \<open>raises\<close> tells which of them raise an exception.
  Nothing in the block catches one: the first step that raises ends the block. The
  result is the steps begun and the step that raised, if any.
\<close>

fun run_steps :: "(step \<Rightarrow> bool) \<Rightarrow> step list \<Rightarrow> step list \<times> step option" where
  "run_steps raises [] = ([], None)"
| "run_steps raises (s # ss) =
     (if raises s then ([s], Some s)
      else (case run_steps raises ss of (done, r) \<Rightarrow> (s # done, r)))"

definition teardown :: "(step \<Rightarrow> bool) \<Rightarrow> port \<Rightarrow> port \<Rightarrow> step list \<times> step option" where
  "teardown raises ser_voltage ser_current =
     run_steps raises
       (port_steps Voltage_port ser_voltage @ port_steps Current_port ser_current @
        [Print_closed])"

section \<open>The cycle never raises\<close>

lemma float_of_int_INTERVAL: "float_of_int INTERVAL = Some (Fin 1)"
  unfolding INTERVAL_def by code_simp

lemma float_of_int_1000: "float_of_int 1000 = Some (Fin 1000)"
  by code_simp

lemma truediv_3600: "truediv x (Fin 3600) = Some (fdiv x (Fin 3600))"
  by (simp add: truediv_def is_zero_def)

lemma cycle_eq:
  "cycle vr cr st =
     (case use_last_valid vr (last_valid_voltage st) VoltageUsingLast VoltageUnavailable of
        (v, lv, wv) \<Rightarrow>
      case use_last_valid cr (last_valid_current st) CurrentUsingLast CurrentUnavailable of
        (c, lc, wc) \<Rightarrow>
        let e = fadd (cumulative_energy_Wh st)
                  (if feq (fmul v c) (fmul v c)
                   then fdiv (fmul (fmul v c) (Fin 1)) (Fin 3600) else Fin 0);
            q = fadd (cumulative_capacity_mAh st)
                  (if feq c c
                   then fdiv (fmul (fmul c (Fin 1000)) (Fin 1)) (Fin 3600) else Fin 0)
        in Some (wv @ wc,
              \<lparr>voltage = v, current = c, power = fmul v c, energy = e, capacity = q\<rparr>,
              \<lparr>cumulative_energy_Wh = e, cumulative_capacity_mAh = q,
               last_valid_voltage = lv, last_valid_current = lc\<rparr>))"
  by (simp add: cycle_def float_of_int_INTERVAL float_of_int_1000 truediv_3600
        Let_def split: prod.splits)











section \<open>Power, energy and capacity of a cycle\<close>

lemma feq_self: "feq x x = (\<not> is_nan x)"
  by (simp add: feq_def)

lemma round64_not_nan: "\<not> is_nan (round64 x)"
  by (simp add: round64_def Let_def)

lemma fadd_zero_double: "is_double a \<Longrightarrow> \<not> is_nan a \<Longrightarrow> feq (fadd a (Fin 0)) a"
  by (cases a) (auto simp: fadd_def feq_def is_double_def signed_zero_def)

lemma is_nan_fmul:
  "is_nan (fmul x y) =
     (is_nan x \<or> is_nan y \<or> (is_inf x \<and> is_zero y) \<or> (is_zero x \<and> is_inf y))"
  by (cases x; cases y)
     (auto simp: fmul_def is_zero_def signed_inf_def signed_zero_def round64_not_nan)

lemma cycle_total: "\<exists>ws smp st'. cycle vr cr st = Some (ws, smp, st')"
  by (simp add: cycle_eq Let_def split: prod.splits)

lemma cycle_fields:
  assumes "cycle vr cr st = Some (ws, smp, st')"
  shows "power smp = fmul (voltage smp) (current smp)"
    and "energy smp =
           fadd (cumulative_energy_Wh st)
             (if is_nan (power smp) then Fin 0
              else fdiv (fmul (power smp) (Fin 1)) (Fin 3600))"
    and "capacity smp =
           fadd (cumulative_capacity_mAh st)
             (if is_nan (current smp) then Fin 0
              else fdiv (fmul (fmul (current smp) (Fin 1000)) (Fin 1)) (Fin 3600))"
    and "cumulative_energy_Wh st' = energy smp"
    and "cumulative_capacity_mAh st' = capacity smp"
    and "current smp =
           fst (use_last_valid cr (last_valid_current st) CurrentUsingLast CurrentUnavailable)"
    and "voltage smp =
           fst (use_last_valid vr (last_valid_voltage st) VoltageUsingLast VoltageUnavailable)"
  using assms by (auto simp: cycle_eq Let_def feq_self split: prod.splits)

lemma is_double_5: "is_double (Fin 5)"
  unfolding is_double_def by code_simp

text \<open>
  Claim C2, as the code has it. The energy added in a cycle is
  \<open>power * INTERVAL / 3600.0\<close> in float arithmetic whenever the power is not NaN, an
  infinite power included, and \<open>0.0\<close> when the power is NaN; a NaN power leaves a total
  that is not NaN equal to what it was.
\<close>

theorem C2_energy_increment:
  "\<exists>ws smp st'. cycle vr cr st = Some (ws, smp, st') \<and>
     float_of_int INTERVAL = Some (Fin 1) \<and>
     cumulative_energy_Wh st' =
       fadd (cumulative_energy_Wh st)
         (if is_nan (power smp) then Fin 0
          else fdiv (fmul (power smp) (Fin 1)) (Fin 3600)) \<and>
     energy smp = cumulative_energy_Wh st' \<and>
     (is_nan (power smp) \<and> is_double (cumulative_energy_Wh st) \<and>
      \<not> is_nan (cumulative_energy_Wh st)
        \<longrightarrow> feq (cumulative_energy_Wh st') (cumulative_energy_Wh st))"
proof -
  obtain ws smp st' where c: "cycle vr cr st = Some (ws, smp, st')"
    using cycle_total by blast
  note f = cycle_fields [OF c]
  have "is_double (cumulative_energy_Wh st) \<Longrightarrow> \<not> is_nan (cumulative_energy_Wh st) \<Longrightarrow>
        is_nan (power smp) \<Longrightarrow> feq (cumulative_energy_Wh st') (cumulative_energy_Wh st)"
    using f(2) f(4) by (simp add: fadd_zero_double)
  with c f(2) f(4) show ?thesis
    by (auto simp: float_of_int_INTERVAL)
qed

theorem C2_energy_increment_witness:
  "\<exists>ws smp st'.
     cycle None (Some (Fin 1)) (init_state\<lparr>cumulative_energy_Wh := Fin 5\<rparr>)
       = Some (ws, smp, st') \<and>
     is_nan (power smp) \<and> is_double (Fin 5) \<and> \<not> is_nan (Fin 5) \<and>
     feq (cumulative_energy_Wh st') (Fin 5)"
proof -
  let ?st = "init_state\<lparr>cumulative_energy_Wh := Fin 5\<rparr>"
  from C2_energy_increment [of None "Some (Fin 1)" ?st]
  obtain ws smp st' where c: "cycle None (Some (Fin 1)) ?st = Some (ws, smp, st')"
    and imp: "is_nan (power smp) \<and> is_double (cumulative_energy_Wh ?st) \<and>
      \<not> is_nan (cumulative_energy_Wh ?st)
        \<longrightarrow> feq (cumulative_energy_Wh st') (cumulative_energy_Wh ?st)"
    by blast
  from c have p: "is_nan (power smp)"
    by (auto simp: cycle_eq use_last_valid_def init_state_def fmul_def Let_def)
  with imp is_double_5 have "feq (cumulative_energy_Wh st') (Fin 5)"
    by simp
  with c p is_double_5 show ?thesis by auto
qed

text \<open>
  The claim as stated fails for a power that is infinite: with the readings \<open>2.0\<close> and
  \<open>inf\<close> the power is \<open>inf\<close>, which is not finite, and the energy added is \<open>inf\<close>, not
  zero.
\<close>

theorem C2_energy_increment_counterexample:
  "cycle (Some (Fin 2)) (Some PInf) init_state =
     Some ([],
       \<lparr>voltage = Fin 2, current = PInf, power = PInf, energy = PInf, capacity = PInf\<rparr>,
       \<lparr>cumulative_energy_Wh = PInf, cumulative_capacity_mAh = PInf,
        last_valid_voltage = Some (Fin 2), last_valid_current = Some PInf\<rparr>) \<and>
   \<not> is_finite PInf \<and>
   PInf \<noteq> fadd (cumulative_energy_Wh init_state) (Fin 0)"
  by code_simp

text \<open>
  Claim C3, as the code has it. The capacity added in a cycle is
  \<open>current * 1000 * INTERVAL / 3600.0\<close> in float arithmetic whenever the current the
  cycle goes on with is not NaN, an infinite current included, and \<open>0.0\<close> when it is
  NaN. The new capacity depends on the current reading, the last valid current and the
  old capacity only: not on the voltage, the power or the energy.
\<close>

theorem C3_capacity_increment:
  "\<exists>ws smp st'. cycle vr cr st = Some (ws, smp, st') \<and>
     float_of_int 1000 = Some (Fin 1000) \<and> float_of_int INTERVAL = Some (Fin 1) \<and>
     cumulative_capacity_mAh st' =
       fadd (cumulative_capacity_mAh st)
         (if is_nan (current smp) then Fin 0
          else fdiv (fmul (fmul (current smp) (Fin 1000)) (Fin 1)) (Fin 3600)) \<and>
     capacity smp = cumulative_capacity_mAh st' \<and>
     (\<forall>vr2 st2.
        last_valid_current st2 = last_valid_current st \<and>
        cumulative_capacity_mAh st2 = cumulative_capacity_mAh st
        \<longrightarrow> (\<exists>ws2 smp2 st2'. cycle vr2 cr st2 = Some (ws2, smp2, st2') \<and>
               capacity smp2 = capacity smp \<and>
               cumulative_capacity_mAh st2' = cumulative_capacity_mAh st'))"
proof -
  obtain ws smp st' where c: "cycle vr cr st = Some (ws, smp, st')"
    using cycle_total by blast
  note f = cycle_fields [OF c]
  have "\<exists>ws2 smp2 st2'. cycle vr2 cr st2 = Some (ws2, smp2, st2') \<and>
               capacity smp2 = capacity smp \<and>
               cumulative_capacity_mAh st2' = cumulative_capacity_mAh st'"
    if h: "last_valid_current st2 = last_valid_current st"
          "cumulative_capacity_mAh st2 = cumulative_capacity_mAh st" for vr2 st2
  proof -
    obtain ws2 smp2 st2' where c2: "cycle vr2 cr st2 = Some (ws2, smp2, st2')"
      using cycle_total by blast
    note g = cycle_fields [OF c2]
    from f(6) g(6) h have "current smp2 = current smp" by simp
    with f(3) g(3) h have "capacity smp2 = capacity smp" by simp
    with c2 f(5) g(5) show ?thesis by simp
  qed
  with c f(3) f(5) show ?thesis
    by (auto simp: float_of_int_INTERVAL float_of_int_1000)
qed

theorem C3_capacity_increment_witness:
  "\<exists>ws smp st'.
     cycle (Some (Fin 5)) None (init_state\<lparr>last_valid_current := Some (Fin 2)\<rparr>)
       = Some (ws, smp, st') \<and>
     (\<exists>ws2 smp2 st2'.
        cycle (Some NaN) None
          (init_state\<lparr>last_valid_current := Some (Fin 2), cumulative_energy_Wh := PInf\<rparr>)
          = Some (ws2, smp2, st2') \<and>
        is_nan (power smp2) \<and> \<not> is_nan (power smp) \<and>
        capacity smp2 = capacity smp \<and>
        cumulative_capacity_mAh st2' = cumulative_capacity_mAh st')"
proof -
  let ?st = "init_state\<lparr>last_valid_current := Some (Fin 2)\<rparr>"
  let ?st2 = "init_state\<lparr>last_valid_current := Some (Fin 2), cumulative_energy_Wh := PInf\<rparr>"
  from C3_capacity_increment [of "Some (Fin 5)" None ?st]
  obtain ws smp st' where c: "cycle (Some (Fin 5)) None ?st = Some (ws, smp, st')"
    and ind: "\<forall>vr2 st2.
        last_valid_current st2 = last_valid_current ?st \<and>
        cumulative_capacity_mAh st2 = cumulative_capacity_mAh ?st
        \<longrightarrow> (\<exists>ws2 smp2 st2'. cycle vr2 None st2 = Some (ws2, smp2, st2') \<and>
               capacity smp2 = capacity smp \<and>
               cumulative_capacity_mAh st2' = cumulative_capacity_mAh st')"
    by blast
  have "last_valid_current ?st2 = last_valid_current ?st \<and>
        cumulative_capacity_mAh ?st2 = cumulative_capacity_mAh ?st"
    by (simp add: init_state_def)
  with ind obtain ws2 smp2 st2' where
    c2: "cycle (Some NaN) None ?st2 = Some (ws2, smp2, st2')"
    and eq: "capacity smp2 = capacity smp"
      "cumulative_capacity_mAh st2' = cumulative_capacity_mAh st'"
    by blast
  from c2 have p2: "is_nan (power smp2)"
    by (auto simp: cycle_eq use_last_valid_def init_state_def fmul_def Let_def)
  from c have p: "\<not> is_nan (power smp)"
    by (auto simp: cycle_eq use_last_valid_def init_state_def is_nan_fmul is_zero_def
          Let_def)
  from c c2 eq p2 p show ?thesis by auto
qed

text \<open>
  The claim as stated fails for a current that is infinite: with the readings \<open>1.0\<close>
  and \<open>-inf\<close> the current is not finite and the capacity added is \<open>-inf\<close>, not zero.
\<close>

theorem C3_capacity_increment_counterexample:
  "cycle (Some (Fin 1)) (Some NInf) init_state =
     Some ([],
       \<lparr>voltage = Fin 1, current = NInf, power = NInf, energy = NInf, capacity = NInf\<rparr>,
       \<lparr>cumulative_energy_Wh = NInf, cumulative_capacity_mAh = NInf,
        last_valid_voltage = Some (Fin 1), last_valid_current = Some NInf\<rparr>) \<and>
   \<not> is_finite NInf \<and>
   NInf \<noteq> fadd (cumulative_capacity_mAh init_state) (Fin 0)"
  by code_simp

text \<open>
  Claim C4, as the code has it. The power of a cycle is the float product of the
  voltage and the current the cycle goes on with, in every case. It is NaN exactly when
  one of them is NaN or one is infinite and the other zero; so a NaN input gives a NaN
  power, and an infinite input with a non-zero number gives an infinite power.
\<close>

theorem C4_power:
  "\<exists>ws smp st'. cycle vr cr st = Some (ws, smp, st') \<and>
     power smp = fmul (voltage smp) (current smp) \<and>
     (is_nan (voltage smp) \<or> is_nan (current smp) \<longrightarrow> is_nan (power smp)) \<and>
     is_nan (power smp) =
       (is_nan (voltage smp) \<or> is_nan (current smp) \<or>
        (is_inf (voltage smp) \<and> is_zero (current smp)) \<or>
        (is_zero (voltage smp) \<and> is_inf (current smp)))"
proof -
  obtain ws smp st' where c: "cycle vr cr st = Some (ws, smp, st')"
    using cycle_total by blast
  from cycle_fields(1) [OF c] c show ?thesis
    by (auto simp: is_nan_fmul)
qed

theorem C4_power_witness:
  "\<exists>ws smp st'. cycle None (Some (Fin 3)) init_state = Some (ws, smp, st') \<and>
     is_nan (voltage smp) \<and> is_nan (power smp)"
proof -
  from C4_power [of None "Some (Fin 3)" init_state]
  obtain ws smp st' where c: "cycle None (Some (Fin 3)) init_state = Some (ws, smp, st')"
    and imp: "is_nan (voltage smp) \<or> is_nan (current smp) \<longrightarrow> is_nan (power smp)"
    by blast
  from c have "is_nan (voltage smp)"
    by (auto simp: cycle_eq use_last_valid_def init_state_def Let_def)
  with c imp show ?thesis by auto
qed

text \<open>
  The claim as stated fails for an infinite input: with the readings \<open>inf\<close> and \<open>1.0\<close>
  the voltage is not finite, and the power is \<open>inf\<close>, not NaN.
\<close>

theorem C4_power_counterexample:
  "cycle (Some PInf) (Some (Fin 1)) init_state =
     Some ([],
       \<lparr>voltage = PInf, current = Fin 1, power = PInf, energy = PInf,
        capacity = Fin (2501999792983609 / 9007199254740992)\<rparr>,
       \<lparr>cumulative_energy_Wh = PInf,
        cumulative_capacity_mAh = Fin (2501999792983609 / 9007199254740992),
        last_valid_voltage = Some PInf, last_valid_current = Some (Fin 1)\<rparr>) \<and>
   \<not> is_finite PInf \<and> \<not> is_nan PInf"
  by code_simp

section \<open>The polling loop\<close>

lemma parse_line_Nil: "parse_line zeros [] = None"
  by (simp add: parse_line_def decode_def strip_def py_float_def parse_decimal_def
        parse_inf_nan_def)

lemma polling_found:
  "length ts1 = length ls1 \<Longrightarrow> \<forall>u \<in> set ts1. flt (fsub u start) timeout \<Longrightarrow>
   \<forall>k \<in> set ls1. parse_line zeros k = None \<Longrightarrow>
   flt (fsub t start) timeout \<Longrightarrow> parse_line zeros l = Some x \<Longrightarrow>
   polling zeros start timeout (ts1 @ t # ts2) (ls1 @ l # ls2) = Some (Some x, ts2, ls2)"
proof (induction ts1 arbitrary: ls1)
  case Nil
  then show ?case by (auto simp: parse_line_Nil)
next
  case (Cons u ts1)
  then obtain k ls1' where ls1: "ls1 = k # ls1'" by (cases ls1) auto
  with Cons.prems have "polling zeros start timeout (ts1 @ t # ts2) (ls1' @ l # ls2)
      = Some (Some x, ts2, ls2)"
    by (intro Cons.IH) auto
  with Cons.prems ls1 show ?case by simp
qed

lemma polling_timeout:
  "length ts1 = length ls1 \<Longrightarrow> \<forall>u \<in> set ts1. flt (fsub u start) timeout \<Longrightarrow>
   \<forall>k \<in> set ls1. parse_line zeros k = None \<Longrightarrow>
   \<not> flt (fsub t start) timeout \<Longrightarrow>
   polling zeros start timeout (ts1 @ t # ts2) (ls1 @ ls2) = Some (None, ts2, ls2)"
proof (induction ts1 arbitrary: ls1)
  case Nil
  then show ?case by simp
next
  case (Cons u ts1)
  then obtain k ls1' where ls1: "ls1 = k # ls1'" by (cases ls1) auto
  with Cons.prems have "polling zeros start timeout (ts1 @ t # ts2) (ls1' @ ls2)
      = Some (None, ts2, ls2)"
    by (intro Cons.IH) auto
  with Cons.prems ls1 show ?case by simp
qed

lemma polling_returned:
  "polling zeros start timeout ts ls = Some (r, ts', ls') \<Longrightarrow>
   \<exists>ts1 t ls1. ts = ts1 @ t # ts' \<and> length ls1 = length ts1 \<and>
     (\<forall>u \<in> set ts1. flt (fsub u start) timeout) \<and>
     (\<forall>k \<in> set ls1. parse_line zeros k = None) \<and>
     (r = None \<longrightarrow> ls = ls1 @ ls' \<and> \<not> flt (fsub t start) timeout) \<and>
     (\<forall>x. r = Some x \<longrightarrow> flt (fsub t start) timeout \<and>
        (\<exists>l. ls = ls1 @ l # ls' \<and> parse_line zeros l = Some x))"
proof (induction zeros start timeout ts ls rule: polling.induct)
  case (1 zeros start timeout lines)
  then show ?case by simp
next
  case (2 zeros start timeout t ticks lines)
  show ?case
  proof (cases "flt (fsub t start) timeout")
    case False
    with "2.prems" have "r = None" "ts' = ticks" "ls' = lines" by auto
    with False show ?thesis
      by (intro exI [of _ "[]"] exI [of _ t]) simp
  next
    case inwin: True
    with "2.prems" obtain line lines' where lines: "lines = line # lines'"
      by (cases lines) auto
    show ?thesis
    proof (cases "parse_line zeros line")
      case (Some x)
      then have "line \<noteq> []" using parse_line_Nil by auto
      with "2.prems" inwin lines Some have "r = Some x" "ts' = ticks" "ls' = lines'"
        by auto
      with inwin lines Some show ?thesis
        by (intro exI [of _ "[]"] exI [of _ t]) simp
    next
      case None
      with "2.prems" inwin lines
      have rec: "polling zeros start timeout ticks lines' = Some (r, ts', ls')"
        by (auto split: if_splits)
      have "\<exists>ts1 t ls1. ticks = ts1 @ t # ts' \<and> length ls1 = length ts1 \<and>
         (\<forall>u \<in> set ts1. flt (fsub u start) timeout) \<and>
         (\<forall>k \<in> set ls1. parse_line zeros k = None) \<and>
         (r = None \<longrightarrow> lines' = ls1 @ ls' \<and> \<not> flt (fsub t start) timeout) \<and>
         (\<forall>x. r = Some x \<longrightarrow> flt (fsub t start) timeout \<and>
            (\<exists>l. lines' = ls1 @ l # ls' \<and> parse_line zeros l = Some x))"
      proof (cases "line = []")
        case True
        with "2.IH"(2) [OF inwin lines _ rec] show ?thesis by simp
      next
        case False
        with "2.IH"(1) [OF inwin lines _ None rec] show ?thesis by simp
      qed
      then obtain ts1 t' ls1 where h: "ticks = ts1 @ t' # ts'" "length ls1 = length ts1"
         "\<forall>u \<in> set ts1. flt (fsub u start) timeout"
         "\<forall>k \<in> set ls1. parse_line zeros k = None"
         "r = None \<longrightarrow> lines' = ls1 @ ls' \<and> \<not> flt (fsub t' start) timeout"
         "\<forall>x. r = Some x \<longrightarrow> flt (fsub t' start) timeout \<and>
            (\<exists>l. lines' = ls1 @ l # ls' \<and> parse_line zeros l = Some x)"
        by blast
      with inwin lines None show ?thesis
        by (intro exI [of _ "t # ts1"] exI [of _ t'] exI [of _ "line # ls1"]) auto
    qed
  qed
qed

lemma ticks_in_window:
  "\<forall>u \<in> set [Fin 100, Fin (401 / 4)]. flt (fsub u (Fin 100)) default_timeout"
  by code_simp

lemma tick_in_window: "flt (fsub (Fin (201 / 2)) (Fin 100)) default_timeout"
  by code_simp

lemma tick_past_window: "\<not> flt (fsub (Fin (1617 / 16)) (Fin 100)) default_timeout"
  by code_simp

lemma lines_discarded:
  "\<forall>k \<in> set [''garbage'' @ [CHR 0x0D, CHR 0x0A], []].
      parse_line unicode_14_zeros k = None"
  by code_simp

lemma line_parsed:
  "parse_line unicode_14_zeros (''1.5'' @ [CHR 0x0D, CHR 0x0A]) = Some (Fin (3 / 2))"
  by code_simp

text \<open>
  Claim C7. \<open>get_valid_reading\<close> reads the clock once for the start and then before
  each \<open>readline\<close>. While the clock readings are less than \<open>timeout\<close> past the start and
  the lines read are empty or do not convert to a float, it goes on; at the first line
  that converts it returns that float at once, reading no further line; at the first
  clock reading that is not less than \<open>timeout\<close> past the start it returns \<open>None\<close>.
\<close>

theorem C7_first_parseable_line:
  "length ts1 = length ls1 \<and> (\<forall>u \<in> set ts1. flt (fsub u start) timeout) \<and>
   (\<forall>k \<in> set ls1. parse_line zeros k = None) \<longrightarrow>
     (flt (fsub t start) timeout \<and> parse_line zeros l = Some x \<longrightarrow>
        get_valid_reading zeros timeout (start # ts1 @ t # ts2) (ls1 @ l # ls2)
          = Some (Some x, ts2, ls2)) \<and>
     (\<not> flt (fsub t start) timeout \<longrightarrow>
        get_valid_reading zeros timeout (start # ts1 @ t # ts2) (ls1 @ ls2)
          = Some (None, ts2, ls2))"
  by (simp add: get_valid_reading_def polling_found polling_timeout)

theorem C7_first_parseable_line_witness:
  "get_valid_reading unicode_14_zeros default_timeout
     [Fin 100, Fin 100, Fin (401 / 4), Fin (201 / 2), Fin 101]
     [''garbage'' @ [CHR 0x0D, CHR 0x0A], [], ''1.5'' @ [CHR 0x0D, CHR 0x0A], ''7'']
     = Some (Some (Fin (3 / 2)), [Fin 101], [''7'']) \<and>
   get_valid_reading unicode_14_zeros default_timeout
     [Fin 100, Fin 100, Fin (401 / 4), Fin (1617 / 16), Fin 102]
     [''garbage'' @ [CHR 0x0D, CHR 0x0A], [], ''7'']
     = Some (None, [Fin 102], [''7''])"
  using
    C7_first_parseable_line [of "[Fin 100, Fin (401 / 4)]"
      "[''garbage'' @ [CHR 0x0D, CHR 0x0A], []]" "Fin 100" default_timeout
      unicode_14_zeros "Fin (201 / 2)" "''1.5'' @ [CHR 0x0D, CHR 0x0A]" "Fin (3 / 2)"
      "[Fin 101]" "[''7'']"]
    C7_first_parseable_line [of "[Fin 100, Fin (401 / 4)]"
      "[''garbage'' @ [CHR 0x0D, CHR 0x0A], []]" "Fin 100" default_timeout
      unicode_14_zeros "Fin (1617 / 16)" "[]" NaN "[Fin 102]" "[''7'']"]
    ticks_in_window tick_in_window tick_past_window lines_discarded line_parsed
  by simp

text \<open>
  Claim C8, as the code has it. The window bounds the start of each poll, not the
  call. Whenever \<open>get_valid_reading\<close> returns, each \<open>readline\<close> it made came after a clock
  reading less than \<open>timeout\<close> past the start, and it returns \<open>None\<close> only at a clock
  reading that is not less than \<open>timeout\<close> past the start: a call that times out has
  lasted at least \<open>timeout\<close>, and longer by as much as its last \<open>readline\<close> and sleep
  ran past it.
\<close>

theorem C8_window_checked_between_polls:
  "get_valid_reading zeros timeout ticks lines = Some (r, ts', ls') \<Longrightarrow>
   \<exists>start ts1 t ls1. ticks = start # ts1 @ t # ts' \<and> length ls1 = length ts1 \<and>
     (\<forall>u \<in> set ts1. flt (fsub u start) timeout) \<and>
     (\<forall>k \<in> set ls1. parse_line zeros k = None) \<and>
     (r = None \<longrightarrow> lines = ls1 @ ls' \<and> \<not> flt (fsub t start) timeout) \<and>
     (\<forall>x. r = Some x \<longrightarrow> flt (fsub t start) timeout \<and>
        (\<exists>l. lines = ls1 @ l # ls' \<and> parse_line zeros l = Some x))"
proof -
  assume g: "get_valid_reading zeros timeout ticks lines = Some (r, ts', ls')"
  then obtain start ticks' where t: "ticks = start # ticks'"
    by (cases ticks) (auto simp: get_valid_reading_def)
  with g have "polling zeros start timeout ticks' lines = Some (r, ts', ls')"
    by (simp add: get_valid_reading_def)
  from polling_returned [OF this] t show ?thesis by blast
qed

lemma silent_port_run:
  "get_valid_reading unicode_14_zeros default_timeout
     [Fin 100, Fin 100, Fin (1617 / 16)] [[]] = Some (None, [], [])"
  by code_simp

theorem C8_window_checked_between_polls_witness:
  "\<exists>start ts1 t ls1.
     [Fin 100, Fin 100, Fin (1617 / 16)] = start # ts1 @ [t] \<and> length ls1 = length ts1 \<and>
     (\<forall>u \<in> set ts1. flt (fsub u start) default_timeout) \<and>
     [[]] = ls1 \<and> \<not> flt (fsub t start) default_timeout"
  using C8_window_checked_between_polls [OF silent_port_run] by simp

text \<open>
  The claim as stated fails on a silent port. The start is read at \<open>100.0\<close> and the
  first test of the window reads \<open>100.0\<close> again; \<open>readline\<close> gives up after the port's
  own timeout of \<open>1\<close> second with an empty line, and after the sleep the clock reads
  \<open>101.0625\<close>: the call returns \<open>None\<close> when \<open>1.0625\<close> seconds have gone, more than the
  \<open>0.8\<close> of \<open>timeout\<close>.
\<close>

theorem C8_hard_ceiling_counterexample:
  "get_valid_reading unicode_14_zeros default_timeout
     [Fin 100, Fin 100, Fin (1617 / 16)] [[]] = Some (None, [], []) \<and>
   fsub (Fin (1617 / 16)) (Fin 100) = Fin (17 / 16) \<and>
   flt default_timeout (Fin (17 / 16))"
  by code_simp

section \<open>Leaving \<open>main\<close>\<close>

lemma run_steps_none:
  "(snd (run_steps raises ss) = None) = (\<forall>s \<in> set ss. \<not> raises s)"
  by (induction ss) (auto split: prod.splits)

lemma run_steps_some:
  "snd (run_steps raises ss) = Some s \<Longrightarrow>
   raises s \<and> fst (run_steps raises ss) \<noteq> [] \<and> last (fst (run_steps raises ss)) = s"
  by (induction ss) (auto split: prod.splits if_splits)

text \<open>
  Claim C9, as the code has it. The block restores and closes the voltage port, then the
  current port, each only if it was opened and is open, and then prints the last
  message; the steps run in sequence with nothing to catch an exception. The block ends
  without one exactly when no step raises; otherwise it ends at the first step that
  raises, with that exception. The voltage port's restore is always begun when the port
  is open, whatever happens on the current port; the current port's restore is begun
  exactly when neither of the voltage port's steps raises.
\<close>

theorem C9_teardown_in_sequence:
  "teardown raises ser_voltage ser_current = (begun, r) \<Longrightarrow>
   (r = None) =
     (\<forall>s \<in> set (port_steps Voltage_port ser_voltage @ port_steps Current_port ser_current
                  @ [Print_closed]). \<not> raises s) \<and>
   (\<forall>s. r = Some s \<longrightarrow> raises s \<and> begun \<noteq> [] \<and> last begun = s) \<and>
   (ser_voltage = Bound True \<longrightarrow> Write_display Voltage_port \<in> set begun) \<and>
   (ser_current = Bound True \<longrightarrow>
      (Write_display Current_port \<in> set begun) =
      (ser_voltage = Bound True \<longrightarrow>
         \<not> raises (Write_display Voltage_port) \<and> \<not> raises (Close Voltage_port)))"
proof -
  assume t: "teardown raises ser_voltage ser_current = (begun, r)"
  let ?all = "port_steps Voltage_port ser_voltage @ port_steps Current_port ser_current
                @ [Print_closed]"
  from t have r: "r = snd (run_steps raises ?all)" and b: "begun = fst (run_steps raises ?all)"
    by (simp_all add: teardown_def)
  have 1: "(r = None) = (\<forall>s \<in> set ?all. \<not> raises s)"
    using r run_steps_none by simp
  have 2: "\<forall>s. r = Some s \<longrightarrow> raises s \<and> begun \<noteq> [] \<and> last begun = s"
    using r b run_steps_some by metis
  have 3: "ser_voltage = Bound True \<longrightarrow> Write_display Voltage_port \<in> set begun"
    using b by (auto split: prod.splits)
  have 4: "(Write_display Current_port \<in> set begun) =
      (ser_voltage = Bound True \<longrightarrow>
         \<not> raises (Write_display Voltage_port) \<and> \<not> raises (Close Voltage_port))"
    if c: "ser_current = Bound True"
  proof (cases "ser_voltage = Bound True")
    case True
    with c b show ?thesis by (auto split: prod.splits)
  next
    case False
    then have "port_steps Voltage_port ser_voltage = []"
      by (cases ser_voltage) auto
    with False c b show ?thesis by (auto split: prod.splits)
  qed
  from 1 2 3 4 show ?thesis by blast
qed

theorem C9_teardown_in_sequence_witness:
  "teardown ((=) (Close Voltage_port)) (Bound True) (Bound True)
     = ([Write_display Voltage_port, Close Voltage_port], Some (Close Voltage_port)) \<and>
   Write_display Voltage_port \<in> set [Write_display Voltage_port, Close Voltage_port] \<and>
   Write_display Current_port \<notin> set [Write_display Voltage_port, Close Voltage_port]"
proof -
  have t: "teardown ((=) (Close Voltage_port)) (Bound True) (Bound True)
     = ([Write_display Voltage_port, Close Voltage_port], Some (Close Voltage_port))"
    by (simp add: teardown_def)
  from C9_teardown_in_sequence [OF t] t show ?thesis by simp
qed

text \<open>
  The claim as stated fails when the restore of the voltage port raises (the port was
  unplugged, say): the block ends there with the exception, and neither the restore nor
  the close of the open current port is begun.
\<close>

theorem C9_independent_teardown_counterexample:
  "teardown ((=) (Write_display Voltage_port)) (Bound True) (Bound True)
     = ([Write_display Voltage_port], Some (Write_display Voltage_port)) \<and>
   Write_display Current_port \<notin> set [Write_display Voltage_port] \<and>
   Close Current_port \<notin> set [Write_display Voltage_port]"
  by (simp add: teardown_def)

section \<open>Readings that are not finite\<close>

text \<open>
  Claim C10. The lines \<open>nan\<close> and \<open>inf\<close> convert to a float, so \<open>get_valid_reading\<close>
  returns NaN and infinity as readings. A cycle stores such a reading as the last valid
  value and prints no warning; at a miss in the next cycle NaN is the value used, with
  the warning that the last valid value is used, not the one that no reading is
  available.
\<close>

theorem C10_non_finite_readings:
  "get_valid_reading zeros default_timeout [Fin 100, Fin 100]
     [''nan'' @ [CHR 0x0D, CHR 0x0A]] = Some (Some NaN, [], []) \<and>
   get_valid_reading zeros default_timeout [Fin 100, Fin 100]
     [''inf'' @ [CHR 0x0D, CHR 0x0A]] = Some (Some PInf, [], []) \<and>
   \<not> is_finite NaN \<and> \<not> is_finite PInf \<and>
   run_cycles [(Some NaN, Some (Fin 1)), (None, Some (Fin 1))] init_state =
     Some ([([], \<lparr>voltage = NaN, current = Fin 1, power = NaN, energy = Fin 0,
                  capacity = Fin (2501999792983609 / 9007199254740992)\<rparr>),
            ([VoltageUsingLast],
                \<lparr>voltage = NaN, current = Fin 1, power = NaN, energy = Fin 0,
                  capacity = Fin (2501999792983609 / 4503599627370496)\<rparr>)],
           \<lparr>cumulative_energy_Wh = Fin 0,
            cumulative_capacity_mAh = Fin (2501999792983609 / 4503599627370496),
            last_valid_voltage = Some NaN, last_valid_current = Some (Fin 1)\<rparr>)"
  by code_simp

theorem C10_non_finite_readings_witness:
  "get_valid_reading unicode_14_zeros default_timeout [Fin 100, Fin 100]
     [''nan'' @ [CHR 0x0D, CHR 0x0A]] = Some (Some NaN, [], []) \<and>
   get_valid_reading unicode_14_zeros default_timeout [Fin 100, Fin 100]
     [''inf'' @ [CHR 0x0D, CHR 0x0A]] = Some (Some PInf, [], [])"
  using C10_non_finite_readings [of unicode_14_zeros] by simp

section \<open>Rounding keeps the order\<close>

lemma pow2_pos: "0 < pow2 k"
  by (simp add: pow2_def)

lemma pow2_add: "pow2 (m + n) = pow2 m * pow2 n"
  unfolding pow2_def by (rule power_int_add) simp

lemma pow2_diff: "pow2 (m - n) = pow2 m / pow2 n"
  unfolding pow2_def by (rule power_int_diff) simp

lemma pow2_nat: "0 \<le> k \<Longrightarrow> pow2 k = 2 ^ nat k"
  by (simp add: pow2_def power_int_nonneg_exp)

lemma pow2_less_iff: "(pow2 m < pow2 n) = (m < n)"
proof
  assume h: "pow2 m < pow2 n"
  show "m < n"
  proof (rule ccontr)
    assume "\<not> m < n"
    then have "pow2 n \<le> pow2 m"
      unfolding pow2_def by (intro power_int_increasing) auto
    with h show False by simp
  qed
next
  assume "m < n"
  then show "pow2 m < pow2 n"
    unfolding pow2_def by (intro power_int_strict_increasing) auto
qed

lemma pow2_le_iff: "(pow2 m \<le> pow2 n) = (m \<le> n)"
  using pow2_less_iff [of n m] by (simp add: not_less [symmetric])

lemma pow2_52: "pow2 52 = of_int (2 ^ 52)"
  by (simp add: pow2_def)

lemma pow2_53: "pow2 53 = of_int (2 ^ 53)"
  by (simp add: pow2_def)

lemma ilog2_bounds:
  assumes "0 < x"
  shows "pow2 (ilog2 x) \<le> x" and "x < pow2 (ilog2 x + 1)"
proof -
  obtain n d where q: "quotient_of x = (n, d)" by (cases "quotient_of x")
  then have d: "0 < d" and x: "x = of_int n / of_int d"
    by (simp_all add: quotient_of_denom_pos quotient_of_div)
  with assms have n: "0 < n"
    by (simp add: zero_less_divide_iff)
  define bn bd where "bn = bitlen n" and "bd = bitlen d"
  have bn1: "1 \<le> bn" and bd1: "1 \<le> bd"
    using n d by (simp_all add: bn_def bd_def bitlen_alt_def)
  from bitlen_bounds [OF n] have "2 ^ nat (bn - 1) \<le> n" "n < 2 ^ nat bn"
    by (simp_all add: bn_def)
  then have nb: "pow2 (bn - 1) \<le> of_int n" "of_int n < pow2 bn"
    using bn1 by (simp_all add: pow2_nat)
  from bitlen_bounds [OF d] have "2 ^ nat (bd - 1) \<le> d" "d < 2 ^ nat bd"
    by (simp_all add: bd_def)
  then have db: "pow2 (bd - 1) \<le> of_int d" "of_int d < pow2 bd"
    using bd1 by (simp_all add: pow2_nat)
  have dpos: "0 < (of_int d :: rat)" using d by simp
  have up: "x < pow2 (bn - bd + 1)"
  proof -
    have "x < pow2 bn / of_int d"
      unfolding x using nb(2) dpos by (simp add: divide_strict_right_mono)
    also have "\<dots> \<le> pow2 bn / pow2 (bd - 1)"
      using db(1) pow2_pos [of "bd - 1"] pow2_pos [of bn] by (simp add: frac_le)
    also have "\<dots> = pow2 (bn - (bd - 1))"
      by (simp add: pow2_diff)
    finally show ?thesis by (simp add: algebra_simps)
  qed
  have lo: "pow2 (bn - bd - 1) \<le> x"
  proof -
    have "pow2 (bn - bd - 1) = pow2 (bn - 1 - bd)"
      by (simp add: algebra_simps)
    also have "\<dots> = pow2 (bn - 1) / pow2 bd"
      by (rule pow2_diff)
    also have "\<dots> \<le> of_int n / pow2 bd"
      using nb(1) pow2_pos [of bd] by (simp add: divide_right_mono)
    also have "\<dots> \<le> of_int n / of_int d"
      using db(2) dpos n by (simp add: frac_le)
    finally show ?thesis by (simp add: x)
  qed
  have il: "ilog2 x = (if pow2 (bn - bd) \<le> x then bn - bd else bn - bd - 1)"
    by (simp add: ilog2_def q bn_def bd_def Let_def)
  show "pow2 (ilog2 x) \<le> x"
    using lo by (simp add: il)
  show "x < pow2 (ilog2 x + 1)"
    using up by (auto simp: il not_le)
qed

lemma ilog2_less: "0 < y \<Longrightarrow> y < pow2 k \<Longrightarrow> ilog2 y < k"
  using ilog2_bounds(1) [of y] pow2_less_iff [of "ilog2 y" k] by simp

lemma ilog2_ge: "pow2 k \<le> y \<Longrightarrow> k \<le> ilog2 y"
proof -
  assume h: "pow2 k \<le> y"
  have y: "0 < y" by (rule less_le_trans [OF pow2_pos h])
  from h ilog2_bounds(2) [OF y] have "pow2 k < pow2 (ilog2 y + 1)"
    by simp
  then show ?thesis by (simp add: pow2_less_iff)
qed

lemma ilog2_unique:
  assumes "pow2 e \<le> x" "x < pow2 (e + 1)"
  shows "ilog2 x = e"
proof -
  have x: "0 < x" by (rule less_le_trans [OF pow2_pos assms(1)])
  from ilog2_ge [OF assms(1)] ilog2_less [OF x assms(2)] show ?thesis by simp
qed

lemma ilog2_mono:
  assumes "0 < x" "x \<le> y"
  shows "ilog2 x \<le> ilog2 y"
proof -
  have "pow2 (ilog2 x) \<le> y"
    using ilog2_bounds(1) [OF assms(1)] assms(2) by simp
  then show ?thesis by (rule ilog2_ge)
qed

lemma rhe_of_int: "rhe (of_int n) = n"
  by (simp add: rhe_def)

lemma rhe_floor: "\<lfloor>x\<rfloor> \<le> rhe x" "rhe x \<le> \<lfloor>x\<rfloor> + 1"
  by (simp_all add: rhe_def Let_def)

lemma rhe_mono:
  assumes "x \<le> y"
  shows "rhe x \<le> rhe y"
proof (cases "\<lfloor>x\<rfloor> = \<lfloor>y\<rfloor>")
  case False
  with assms have "\<lfloor>x\<rfloor> < \<lfloor>y\<rfloor>"
    using floor_mono [of x y] by simp
  then have "rhe x \<le> \<lfloor>y\<rfloor>" using rhe_floor(2) [of x] by simp
  then show ?thesis using rhe_floor(1) [of y] by simp
next
  case True
  with assms have "x - of_int \<lfloor>x\<rfloor> \<le> y - of_int \<lfloor>y\<rfloor>" by simp
  with True show ?thesis
    by (auto simp: rhe_def Let_def)
qed

lemma rhe_ge_int: "of_int n \<le> x \<Longrightarrow> n \<le> rhe x"
  using rhe_mono [of "of_int n" x] by (simp add: rhe_of_int)

lemma rhe_le_int: "x \<le> of_int n \<Longrightarrow> rhe x \<le> n"
  using rhe_mono [of x "of_int n"] by (simp add: rhe_of_int)

lemma ulp_pos: "0 < ulp a"
  by (simp add: ulp_def pow2_pos)

lemma significand_nonneg: "0 \<le> a \<Longrightarrow> 0 \<le> significand a"
  unfolding significand_def
  by (rule rhe_ge_int) (simp add: ulp_pos less_imp_le)

lemma round64_pos:
  assumes "0 < x"
  shows "round64 x =
    (if 1024 \<le> ilog2 x \<or> (ilog2 x = 1023 \<and> significand x = 2 ^ 53) then PInf
     else if significand x = 0 then Fin 0
     else Fin (of_int (significand x) * ulp x))"
  using assms by (simp add: round64_def Let_def)

lemma round64_nonneg: "0 \<le> x \<Longrightarrow> fle (Fin 0) (round64 x)"
proof (cases "x = 0")
  case True
  then show ?thesis by (simp add: round64_def fle_def)
next
  case False
  assume "0 \<le> x"
  with False have x: "0 < x" by simp
  then have "0 \<le> significand x" by (simp add: significand_nonneg)
  then show ?thesis
    by (simp add: round64_pos [OF x] fle_def ulp_pos less_imp_le)
qed

lemma round64_fix:
  assumes y: "0 < y" and e: "ilog2 y < 1024" and q: "y / ulp y = of_int m"
  shows "round64 y = Fin y"
proof -
  have s: "significand y = m"
    by (simp add: significand_def q rhe_of_int)
  have ym: "y = of_int m * ulp y"
    using q ulp_pos [of y] by (simp add: field_simps)
  have m0: "m \<noteq> 0" using y ym by auto
  have "m \<noteq> 2 ^ 53" if "ilog2 y = 1023"
  proof
    assume m53: "m = 2 ^ 53"
    from that have "ulp y = pow2 971" by (simp add: ulp_def)
    with ym m53 have "y = pow2 53 * pow2 971"
      by (simp only: pow2_53)
    also have "\<dots> = pow2 (53 + 971)"
      by (rule pow2_add [symmetric])
    finally have "y = pow2 (ilog2 y + 1)" using that by simp
    with ilog2_bounds(2) [OF y] show False by simp
  qed
  with e s m0 ym show ?thesis
    by (auto simp: round64_pos [OF y])
qed

lemma pow2_mul_52: "of_int (2 ^ 52) * pow2 (e - 52) = pow2 e"
proof -
  have "pow2 e = pow2 (52 + (e - 52))" by simp
  also have "\<dots> = pow2 52 * pow2 (e - 52)" by (rule pow2_add)
  finally show ?thesis by (simp only: pow2_52)
qed

lemma pow2_mul_53: "of_int (2 ^ 53) * pow2 (e - 52) = pow2 (e + 1)"
proof -
  have "pow2 (e + 1) = pow2 (53 + (e - 52))" by (simp add: algebra_simps)
  also have "\<dots> = pow2 53 * pow2 (e - 52)" by (rule pow2_add)
  finally show ?thesis by (simp only: pow2_53)
qed

lemma ulp_normal: "- 1022 \<le> ilog2 x \<Longrightarrow> ulp x = pow2 (ilog2 x - 52)"
  by (simp add: ulp_def max_def)

lemma ulp_subnormal: "ilog2 x \<le> - 1022 \<Longrightarrow> ulp x = pow2 (- 1022 - 52)"
  by (simp add: ulp_def max_def)

lemma significand_normal:
  assumes x: "0 < x" and n: "- 1022 \<le> ilog2 x"
  shows "2 ^ 52 \<le> significand x" and "significand x \<le> 2 ^ 53"
proof -
  note u = ulp_normal [OF n]
  have "of_int (2 ^ 52) * ulp x \<le> x"
    using ilog2_bounds(1) [OF x] by (simp only: u pow2_mul_52)
  then have "of_int (2 ^ 52) \<le> x / ulp x"
    using ulp_pos [of x] by (simp add: pos_le_divide_eq)
  then show "2 ^ 52 \<le> significand x"
    unfolding significand_def by (rule rhe_ge_int)
  have "x \<le> of_int (2 ^ 53) * ulp x"
    using ilog2_bounds(2) [OF x] by (simp only: u pow2_mul_53)
  then have "x / ulp x \<le> of_int (2 ^ 53)"
    using ulp_pos [of x] by (simp add: pos_divide_le_eq)
  then show "significand x \<le> 2 ^ 53"
    unfolding significand_def by (rule rhe_le_int)
qed

lemma significand_subnormal:
  assumes x: "0 < x" and n: "ilog2 x < - 1022"
  shows "significand x \<le> 2 ^ 52"
proof -
  from n have u: "ulp x = pow2 (- 1022 - 52)" by (simp only: ulp_subnormal less_imp_le)
  have "pow2 (ilog2 x + 1) \<le> pow2 (- 1022)"
    using n by (simp add: pow2_le_iff)
  with ilog2_bounds(2) [OF x] have "x \<le> pow2 (- 1022)" by simp
  then have "x \<le> of_int (2 ^ 52) * ulp x" by (simp only: u pow2_mul_52)
  then have "x / ulp x \<le> of_int (2 ^ 52)"
    using ulp_pos [of x] by (simp add: pos_divide_le_eq)
  then show ?thesis
    unfolding significand_def by (rule rhe_le_int)
qed

text \<open>What rounding gives is a float: rounding it again changes nothing.\<close>

lemma round64_idem_pos:
  assumes x: "0 < x" and r: "round64 x = Fin y"
  shows "round64 y = Fin y"
proof (cases "significand x = 0")
  case True
  with r x have "y = 0" by (simp add: round64_pos split: if_splits)
  then show ?thesis by (simp add: round64_def)
next
  case m0: False
  define m where "m = significand x"
  define e where "e = ilog2 x"
  from r x m0 have e1024: "e < 1024" and nov: "\<not> (e = 1023 \<and> m = 2 ^ 53)"
    and y: "y = of_int m * ulp x"
    by (simp_all add: round64_pos m_def e_def split: if_splits)
  have mpos: "0 < m"
    using significand_nonneg [of x] x m0 by (simp add: m_def)
  have ypos: "0 < y"
    using mpos ulp_pos [of x] by (simp add: y)
  show ?thesis
  proof (cases "- 1022 \<le> e")
    case normal: True
    then have u: "ulp x = pow2 (e - 52)" by (simp add: ulp_normal e_def)
    from significand_normal [OF x] normal have mb: "2 ^ 52 \<le> m" "m \<le> 2 ^ 53"
      by (simp_all add: m_def e_def)
    show ?thesis
    proof (cases "m = 2 ^ 53")
      case True
      with nov e1024 have e1022: "e \<le> 1022" by simp
      have yp: "y = pow2 (e + 1)"
        unfolding y u True by (rule pow2_mul_53)
      have ey: "ilog2 y = e + 1"
        by (rule ilog2_unique) (simp_all add: yp pow2_less_iff)
      have "ulp y = pow2 (e + 1 - 52)"
        using normal by (simp add: ulp_normal ey)
      moreover have "of_int (2 ^ 52) * pow2 (e + 1 - 52) = y"
        unfolding yp by (rule pow2_mul_52)
      ultimately have "y / ulp y = of_int (2 ^ 52)"
        using pow2_pos [of "e + 1 - 52"] by (simp add: field_simps)
      with ypos show ?thesis
        using e1022 by (intro round64_fix) (simp_all add: ey)
    next
      case False
      with mb have m53: "m < 2 ^ 53" by simp
      have "pow2 e = of_int (2 ^ 52) * pow2 (e - 52)"
        by (rule pow2_mul_52 [symmetric])
      also have "\<dots> \<le> of_int m * pow2 (e - 52)"
        using mb(1) pow2_pos [of "e - 52"] by (intro mult_right_mono) simp_all
      finally have lo: "pow2 e \<le> y" by (simp add: y u)
      have "of_int m * pow2 (e - 52) < of_int (2 ^ 53) * pow2 (e - 52)"
        using m53 pow2_pos [of "e - 52"] by (intro mult_strict_right_mono) simp_all
      also have "\<dots> = pow2 (e + 1)" by (rule pow2_mul_53)
      finally have hi: "y < pow2 (e + 1)" by (simp add: y u)
      have ey: "ilog2 y = e" using lo hi by (rule ilog2_unique)
      have "ulp y = ulp x"
        by (simp add: ulp_def ey e_def)
      then have "y / ulp y = of_int m"
        using ulp_pos [of x] by (simp add: y)
      with ypos show ?thesis
        using e1024 by (intro round64_fix) (simp_all add: ey)
    qed
  next
    case False
    then have sub: "e < - 1022" by simp
    then have u: "ulp x = pow2 (- 1022 - 52)"
      by (simp only: ulp_subnormal e_def less_imp_le)
    from significand_subnormal [OF x] sub have mb: "m \<le> 2 ^ 52"
      by (simp add: m_def e_def)
    have "y \<le> of_int (2 ^ 52) * pow2 (- 1022 - 52)"
      unfolding y u using mb pow2_pos [of "- 1022 - 52"]
      by (intro mult_right_mono) simp_all
    also have "\<dots> = pow2 (- 1022)" by (rule pow2_mul_52)
    also have "\<dots> < pow2 (- 1021)" by (simp add: pow2_less_iff)
    finally have "ilog2 y < - 1021" using ypos by (intro ilog2_less)
    then have ey: "ilog2 y \<le> - 1022" by simp
    then have "ulp y = ulp x"
      by (simp only: u ulp_subnormal)
    then have "y / ulp y = of_int m"
      using ulp_pos [of x] by (simp add: y)
    with ypos show ?thesis
      using ey by (intro round64_fix) simp_all
  qed
qed

lemma is_double_round64: "0 \<le> x \<Longrightarrow> is_double (round64 x)"
proof (cases "x = 0")
  case True
  then show ?thesis by (simp add: is_double_def round64_def)
next
  case False
  assume "0 \<le> x"
  with False have "0 < x" by simp
  then show ?thesis
    using round64_idem_pos [of x] by (auto simp: is_double_def split: pyfloat.splits)
qed

text \<open>Rounding does not pass below a float that the exact value is not below.\<close>

lemma round64_ge:
  assumes a: "0 < a" and fa: "round64 a = Fin a" and ax: "a \<le> x"
  shows "fle (Fin a) (round64 x)"
proof -
  have x: "0 < x" using a ax by simp
  have am: "significand a \<noteq> 0" "a = of_int (significand a) * ulp a"
    using fa a by (auto simp: round64_pos split: if_splits)
  have apos: "0 < significand a"
    using significand_nonneg [of a] a am(1) by simp
  have e: "ilog2 a \<le> ilog2 x" using a ax by (rule ilog2_mono)
  have key: "0 < significand x \<and> a \<le> of_int (significand x) * ulp x"
  proof (cases "max (ilog2 x) (- 1022) = max (ilog2 a) (- 1022)")
    case True
    then have u: "ulp x = ulp a" by (simp add: ulp_def)
    have "a / ulp a = of_int (significand a)"
      using am(2) ulp_pos [of a] by (simp add: field_simps)
    moreover have "a / ulp a \<le> x / ulp x"
      unfolding u using ax ulp_pos [of a] by (simp add: divide_right_mono)
    ultimately have "of_int (significand a) \<le> x / ulp x" by simp
    then have le: "significand a \<le> significand x"
      unfolding significand_def [of x] by (rule rhe_ge_int)
    then have "of_int (significand a) * ulp a \<le> of_int (significand x) * ulp x"
      unfolding u using ulp_pos [of a] by (intro mult_right_mono) simp_all
    with le apos am(2) show ?thesis by simp
  next
    case False
    with e have n: "- 1022 < ilog2 x" and ea: "ilog2 a + 1 \<le> ilog2 x"
      by (auto simp: max_def split: if_splits)
    from significand_normal(1) [OF x] n have m: "2 ^ 52 \<le> significand x" by simp
    have "a < pow2 (ilog2 a + 1)" using ilog2_bounds(2) [OF a] .
    also have "\<dots> \<le> pow2 (ilog2 x)" using ea by (simp add: pow2_le_iff)
    also have "\<dots> = of_int (2 ^ 52) * pow2 (ilog2 x - 52)"
      by (rule pow2_mul_52 [symmetric])
    also have "\<dots> \<le> of_int (significand x) * pow2 (ilog2 x - 52)"
      using m pow2_pos [of "ilog2 x - 52"] by (intro mult_right_mono) simp_all
    also have "pow2 (ilog2 x - 52) = ulp x"
      using n by (simp add: ulp_normal)
    finally have "a \<le> of_int (significand x) * ulp x" by simp
    moreover from m have "0 < significand x" by simp
    ultimately show ?thesis by simp
  qed
  then show ?thesis
    by (simp add: round64_pos [OF x] fle_def)
qed

text \<open>Floats that are not NaN and not negative (the negative zero counts as zero).\<close>

lemma nonneg_cases:
  assumes "fle (Fin 0) x"
  obtains (fin) q where "x = Fin q" "0 \<le> q" | (negzero) "x = NegZero" | (pinf) "x = PInf"
  using assms by (cases x) (auto simp: fle_def)

lemma nonneg_disj:
  "fle (Fin 0) x \<Longrightarrow> (\<exists>q. x = Fin q \<and> 0 \<le> q) \<or> x = NegZero \<or> x = PInf"
  by (cases x) (auto simp: fle_def)

lemma fadd_nonneg:
  assumes d: "is_double acc" and acc: "fle (Fin 0) acc" and inc: "fle (Fin 0) inc"
  shows "fle acc (fadd acc inc)" and "is_double (fadd acc inc)"
    and "fle (Fin 0) (fadd acc inc)"
proof -
  have "fle acc (fadd acc inc) \<and> is_double (fadd acc inc) \<and> fle (Fin 0) (fadd acc inc)"
  proof (cases "is_inf acc \<or> is_inf inc")
    case True
    with acc inc have "fadd acc inc = PInf"
      by (auto dest!: nonneg_disj simp: fadd_def)
    with acc show ?thesis
      by (cases acc) (auto simp: fle_def is_double_def)
  next
    case False
    with acc inc have fin: "is_finite acc" "is_finite inc" "0 \<le> fval acc" "0 \<le> fval inc"
      by (auto dest!: nonneg_disj)
    then have nn: "\<not> is_nan acc" "\<not> is_nan inc" "\<not> is_inf acc" "\<not> is_inf inc"
      by (cases acc; cases inc; simp)+
    show ?thesis
    proof (cases "fval acc + fval inc = 0")
      case True
      with fin have z: "fval acc = 0" by simp
      from True nn have "fadd acc inc = signed_zero (fsign acc \<and> fsign inc)"
        by (simp add: fadd_def)
      with z fin(1) show ?thesis
        by (cases acc) (auto simp: signed_zero_def fle_def is_double_def round64_def)
    next
      case False
      with fin have s: "0 < fval acc + fval inc" by simp
      from False nn have r: "fadd acc inc = round64 (fval acc + fval inc)"
        by (simp add: fadd_def)
      have 1: "fle (Fin 0) (round64 (fval acc + fval inc))"
        using s by (intro round64_nonneg) simp
      have 2: "is_double (round64 (fval acc + fval inc))"
        using s by (intro is_double_round64) simp
      have 3: "fle acc (round64 (fval acc + fval inc))"
      proof (cases "fval acc = 0")
        case True
        with fin(1) 1 show ?thesis by (cases acc) (auto simp: fle_def)
      next
        case False
        with fin obtain a where a: "acc = Fin a" "0 < a" by (cases acc) auto
        with d have "round64 a = Fin a" by (simp add: is_double_def)
        from round64_ge [OF a(2) this, of "a + fval inc"] fin(4) a show ?thesis by simp
      qed
      from 1 2 3 r show ?thesis by simp
    qed
  qed
  then show "fle acc (fadd acc inc)" and "is_double (fadd acc inc)"
    and "fle (Fin 0) (fadd acc inc)"
    by simp_all
qed

lemma fmul_pos_const:
  assumes "fle (Fin 0) x" "0 < k"
  shows "fle (Fin 0) (fmul x (Fin k))"
  using assms
proof (cases x rule: nonneg_cases)
  case (fin q)
  with assms(2) show ?thesis
    using round64_nonneg [of "q * k"]
    by (auto simp: fmul_def signed_zero_def fle_def not_less)
qed (auto simp: fmul_def signed_zero_def signed_inf_def fle_def is_zero_def)

lemma fdiv_pos_const:
  assumes "fle (Fin 0) x" "0 < k"
  shows "fle (Fin 0) (fdiv x (Fin k))"
  using assms
proof (cases x rule: nonneg_cases)
  case (fin q)
  with assms(2) show ?thesis
    using round64_nonneg [of "q / k"]
    by (auto simp: fdiv_def signed_zero_def fle_def not_less)
qed (auto simp: fdiv_def signed_zero_def signed_inf_def fle_def)

section \<open>The totals over a run\<close>

lemma cycle_energy_step:
  assumes c: "cycle vr cr st = Some (ws, smp, st')"
    and d: "is_double (cumulative_energy_Wh st)" "fle (Fin 0) (cumulative_energy_Wh st)"
    and p: "is_nan (power smp) \<or> fle (Fin 0) (power smp)"
  shows "fle (cumulative_energy_Wh st) (energy smp)"
    and "is_double (energy smp)" and "fle (Fin 0) (energy smp)"
proof -
  define inc where "inc = (if is_nan (power smp) then Fin 0
                           else fdiv (fmul (power smp) (Fin 1)) (Fin 3600))"
  have e: "energy smp = fadd (cumulative_energy_Wh st) inc"
    using cycle_fields(2) [OF c] by (simp add: inc_def)
  have i: "fle (Fin 0) inc"
  proof (cases "is_nan (power smp)")
    case True
    then show ?thesis by (simp add: inc_def fle_def)
  next
    case False
    with p have "fle (Fin 0) (power smp)" by simp
    then have "fle (Fin 0) (fdiv (fmul (power smp) (Fin 1)) (Fin 3600))"
      by (intro fdiv_pos_const fmul_pos_const) simp_all
    with False show ?thesis by (simp add: inc_def)
  qed
  from fadd_nonneg [OF d i] e
  show "fle (cumulative_energy_Wh st) (energy smp)"
    and "is_double (energy smp)" and "fle (Fin 0) (energy smp)"
    by simp_all
qed

lemma cycle_capacity_step:
  assumes c: "cycle vr cr st = Some (ws, smp, st')"
    and d: "is_double (cumulative_capacity_mAh st)" "fle (Fin 0) (cumulative_capacity_mAh st)"
    and p: "is_nan (current smp) \<or> fle (Fin 0) (current smp)"
  shows "fle (cumulative_capacity_mAh st) (capacity smp)"
    and "is_double (capacity smp)" and "fle (Fin 0) (capacity smp)"
proof -
  define inc where "inc = (if is_nan (current smp) then Fin 0
                           else fdiv (fmul (fmul (current smp) (Fin 1000)) (Fin 1)) (Fin 3600))"
  have e: "capacity smp = fadd (cumulative_capacity_mAh st) inc"
    using cycle_fields(3) [OF c] by (simp add: inc_def)
  have i: "fle (Fin 0) inc"
  proof (cases "is_nan (current smp)")
    case True
    then show ?thesis by (simp add: inc_def fle_def)
  next
    case False
    with p have "fle (Fin 0) (current smp)" by simp
    then have "fle (Fin 0) (fdiv (fmul (fmul (current smp) (Fin 1000)) (Fin 1)) (Fin 3600))"
      by (intro fdiv_pos_const fmul_pos_const) simp_all
    with False show ?thesis by (simp add: inc_def)
  qed
  from fadd_nonneg [OF d i] e
  show "fle (cumulative_capacity_mAh st) (capacity smp)"
    and "is_double (capacity smp)" and "fle (Fin 0) (capacity smp)"
    by simp_all
qed

lemma run_cycles_total:
  "\<exists>outs st'. run_cycles rs st = Some (outs, st') \<and> length outs = length rs"
proof (induction rs arbitrary: st)
  case Nil
  then show ?case by simp
next
  case (Cons r rs)
  obtain vr cr where r: "r = (vr, cr)" by (cases r)
  obtain ws smp st1 where c: "cycle vr cr st = Some (ws, smp, st1)"
    using cycle_total by blast
  from Cons.IH [of st1] obtain outs st' where
    "run_cycles rs st1 = Some (outs, st')" "length outs = length rs"
    by blast
  with c r show ?case by simp
qed

lemma run_energy_nondecreasing:
  "run_cycles rs st = Some (outs, st') \<Longrightarrow>
   is_double (cumulative_energy_Wh st) \<Longrightarrow> fle (Fin 0) (cumulative_energy_Wh st) \<Longrightarrow>
   \<forall>out \<in> set outs. is_nan (power (snd out)) \<or> fle (Fin 0) (power (snd out)) \<Longrightarrow>
   nondecreasing (cumulative_energy_Wh st) (map (energy \<circ> snd) outs)"
proof (induction rs arbitrary: st outs)
  case Nil
  then show ?case by simp
next
  case (Cons r rs)
  obtain vr cr where r: "r = (vr, cr)" by (cases r)
  obtain ws smp st1 where c: "cycle vr cr st = Some (ws, smp, st1)"
    using cycle_total by blast
  with Cons.prems(1) r obtain outs1 where
    run: "run_cycles rs st1 = Some (outs1, st')" and outs: "outs = (ws, smp) # outs1"
    by (auto split: option.splits)
  from Cons.prems(4) outs have p: "is_nan (power smp) \<or> fle (Fin 0) (power smp)"
    and ps: "\<forall>out \<in> set outs1. is_nan (power (snd out)) \<or> fle (Fin 0) (power (snd out))"
    by simp_all
  note s = cycle_energy_step [OF c Cons.prems(2) Cons.prems(3) p]
  have e1: "cumulative_energy_Wh st1 = energy smp"
    using cycle_fields(4) [OF c] .
  from Cons.IH [OF run _ _ ps] s e1
  have "nondecreasing (energy smp) (map (energy \<circ> snd) outs1)" by (simp add: o_def)
  with s(1) outs show ?case by (simp add: o_def)
qed

lemma run_capacity_nondecreasing:
  "run_cycles rs st = Some (outs, st') \<Longrightarrow>
   is_double (cumulative_capacity_mAh st) \<Longrightarrow> fle (Fin 0) (cumulative_capacity_mAh st) \<Longrightarrow>
   \<forall>out \<in> set outs. is_nan (current (snd out)) \<or> fle (Fin 0) (current (snd out)) \<Longrightarrow>
   nondecreasing (cumulative_capacity_mAh st) (map (capacity \<circ> snd) outs)"
proof (induction rs arbitrary: st outs)
  case Nil
  then show ?case by simp
next
  case (Cons r rs)
  obtain vr cr where r: "r = (vr, cr)" by (cases r)
  obtain ws smp st1 where c: "cycle vr cr st = Some (ws, smp, st1)"
    using cycle_total by blast
  with Cons.prems(1) r obtain outs1 where
    run: "run_cycles rs st1 = Some (outs1, st')" and outs: "outs = (ws, smp) # outs1"
    by (auto split: option.splits)
  from Cons.prems(4) outs have p: "is_nan (current smp) \<or> fle (Fin 0) (current smp)"
    and ps: "\<forall>out \<in> set outs1. is_nan (current (snd out)) \<or> fle (Fin 0) (current (snd out))"
    by simp_all
  note s = cycle_capacity_step [OF c Cons.prems(2) Cons.prems(3) p]
  have e1: "cumulative_capacity_mAh st1 = capacity smp"
    using cycle_fields(5) [OF c] .
  from Cons.IH [OF run _ _ ps] s e1
  have "nondecreasing (capacity smp) (map (capacity \<circ> snd) outs1)" by (simp add: o_def)
  with s(1) outs show ?case by (simp add: o_def)
qed

lemma three_cycles:
  "run_cycles [(Some (Fin 2), Some (Fin 1)), (None, Some NaN), (Some (Fin 3), Some (Fin 1))]
     init_state =
   Some ([([], \<lparr>voltage = Fin 2, current = Fin 1, power = Fin 2,
                  energy = Fin (5124095576030431 / 9223372036854775808),
                  capacity = Fin (2501999792983609 / 9007199254740992)\<rparr>),
          ([VoltageUsingLast],
               \<lparr>voltage = Fin 2, current = NaN, power = NaN,
                  energy = Fin (5124095576030431 / 9223372036854775808),
                  capacity = Fin (2501999792983609 / 9007199254740992)\<rparr>),
          ([], \<lparr>voltage = Fin 3, current = Fin 1, power = Fin 3,
                  energy = Fin (6405119470038039 / 4611686018427387904),
                  capacity = Fin (2501999792983609 / 4503599627370496)\<rparr>)],
         \<lparr>cumulative_energy_Wh = Fin (6405119470038039 / 4611686018427387904),
          cumulative_capacity_mAh = Fin (2501999792983609 / 4503599627370496),
          last_valid_voltage = Some (Fin 3), last_valid_current = Some (Fin 1)\<rparr>)"
  by code_simp

text \<open>
  Claim C5, as the code has it. From the start of \<open>main\<close> on, over any run of cycles:
  the cumulative energy never decreases if the power of every cycle is NaN or not
  negative, and the cumulative capacity never decreases if the current of every cycle is
  NaN or not negative (a NaN adds zero). Nothing keeps a power or a current from being
  negative, and a negative one is added as it is.
\<close>

theorem C5_totals_nondecreasing:
  "\<exists>outs st'. run_cycles rs init_state = Some (outs, st') \<and> length outs = length rs \<and>
     ((\<forall>out \<in> set outs. is_nan (power (snd out)) \<or> fle (Fin 0) (power (snd out)))
        \<longrightarrow> nondecreasing (Fin 0) (map (energy \<circ> snd) outs)) \<and>
     ((\<forall>out \<in> set outs. is_nan (current (snd out)) \<or> fle (Fin 0) (current (snd out)))
        \<longrightarrow> nondecreasing (Fin 0) (map (capacity \<circ> snd) outs))"
proof -
  obtain outs st' where run: "run_cycles rs init_state = Some (outs, st')"
    and len: "length outs = length rs"
    using run_cycles_total by blast
  have z: "is_double (Fin 0)" "fle (Fin 0) (Fin 0)"
    by (simp_all add: is_double_def round64_def fle_def)
  have "nondecreasing (Fin 0) (map (energy \<circ> snd) outs)"
    if "\<forall>out \<in> set outs. is_nan (power (snd out)) \<or> fle (Fin 0) (power (snd out))"
    using run_energy_nondecreasing [OF run _ _ that] z by (simp add: init_state_def)
  moreover have "nondecreasing (Fin 0) (map (capacity \<circ> snd) outs)"
    if "\<forall>out \<in> set outs. is_nan (current (snd out)) \<or> fle (Fin 0) (current (snd out))"
    using run_capacity_nondecreasing [OF run _ _ that] z by (simp add: init_state_def)
  ultimately show ?thesis using run len by blast
qed

theorem C5_totals_nondecreasing_witness:
  "\<exists>outs st'.
     run_cycles [(Some (Fin 2), Some (Fin 1)), (None, Some NaN), (Some (Fin 3), Some (Fin 1))]
       init_state = Some (outs, st') \<and>
     map (power \<circ> snd) outs = [Fin 2, NaN, Fin 3] \<and>
     map (current \<circ> snd) outs = [Fin 1, NaN, Fin 1] \<and>
     nondecreasing (Fin 0) (map (energy \<circ> snd) outs) \<and>
     nondecreasing (Fin 0) (map (capacity \<circ> snd) outs)"
proof -
  let ?rs = "[(Some (Fin 2), Some (Fin 1)), (None, Some NaN), (Some (Fin 3), Some (Fin 1))]"
  from C5_totals_nondecreasing [of ?rs]
  obtain outs st' where run: "run_cycles ?rs init_state = Some (outs, st')"
    and e: "(\<forall>out \<in> set outs. is_nan (power (snd out)) \<or> fle (Fin 0) (power (snd out)))
        \<longrightarrow> nondecreasing (Fin 0) (map (energy \<circ> snd) outs)"
    and q: "(\<forall>out \<in> set outs. is_nan (current (snd out)) \<or> fle (Fin 0) (current (snd out)))
        \<longrightarrow> nondecreasing (Fin 0) (map (capacity \<circ> snd) outs)"
    by blast
  from run [unfolded three_cycles]
  have p: "map (power \<circ> snd) outs = [Fin 2, NaN, Fin 3]"
    and c: "map (current \<circ> snd) outs = [Fin 1, NaN, Fin 1]"
    by auto
  have "\<forall>x \<in> set (map (power \<circ> snd) outs). is_nan x \<or> fle (Fin 0) x"
    unfolding p by (simp add: fle_def)
  with e have 1: "nondecreasing (Fin 0) (map (energy \<circ> snd) outs)" by simp
  have "\<forall>x \<in> set (map (current \<circ> snd) outs). is_nan x \<or> fle (Fin 0) x"
    unfolding c by (simp add: fle_def)
  with q have 2: "nondecreasing (Fin 0) (map (capacity \<circ> snd) outs)" by simp
  show ?thesis
    apply (rule exI [of _ outs])
    apply (rule exI [of _ st'])
    apply (intro conjI)
        apply (rule run)
       apply (rule p)
      apply (rule c)
     apply (rule 1)
    apply (rule 2)
    done
qed

text \<open>
  The claim as stated fails for a negative reading: with the readings \<open>1.0\<close> and \<open>-1.0\<close>
  the power and the current are negative, and both totals go below their start.
\<close>

theorem C5_negative_increment_counterexample:
  "cycle (Some (Fin 1)) (Some (Fin (- 1))) init_state =
     Some ([],
       \<lparr>voltage = Fin 1, current = Fin (- 1), power = Fin (- 1),
        energy = Fin (- (5124095576030431 / 18446744073709551616)),
        capacity = Fin (- (2501999792983609 / 9007199254740992))\<rparr>,
       \<lparr>cumulative_energy_Wh = Fin (- (5124095576030431 / 18446744073709551616)),
        cumulative_capacity_mAh = Fin (- (2501999792983609 / 9007199254740992)),
        last_valid_voltage = Some (Fin 1), last_valid_current = Some (Fin (- 1))\<rparr>) \<and>
   flt (Fin (- (5124095576030431 / 18446744073709551616))) (cumulative_energy_Wh init_state) \<and>
   flt (Fin (- (2501999792983609 / 9007199254740992))) (cumulative_capacity_mAh init_state)"
  by code_simp

end
